theory Spec2Isabelle
  imports Main "HOL-Library.Word"
begin

section \<open>JavaScript strings\<close>

text \<open>
  A JavaScript string is a sequence of UTF-16 code units. The regular expression
  \<^verbatim>\<open>/\s+/\<close> of \<^verbatim>\<open>tokenlist.ts\<close> carries no \<^verbatim>\<open>u\<close> flag, so it
  works code unit by code unit. The class \<^verbatim>\<open>\s\<close> is ECMAScript's WhiteSpace and
  LineTerminator: TAB, LF, VT, FF, CR, SPACE, NBSP, U+1680, U+2000 to U+200A, U+2028,
  U+2029, U+202F, U+205F, U+3000 and U+FEFF, all of them single code units.
\<close>

type_synonym code_unit = "16 word"
type_synonym jsstring = "code_unit list"

definition is_ws :: "code_unit \<Rightarrow> bool" where
  "is_ws c \<longleftrightarrow>
     c = 0x0009 \<or> c = 0x000A \<or> c = 0x000B \<or> c = 0x000C \<or> c = 0x000D \<or>
     c = 0x0020 \<or> c = 0x00A0 \<or> c = 0x1680 \<or> (0x2000 \<le> c \<and> c \<le> 0x200A) \<or>
     c = 0x2028 \<or> c = 0x2029 \<or> c = 0x202F \<or> c = 0x205F \<or> c = 0x3000 \<or> c = 0xFEFF"

abbreviation non_ws :: "code_unit \<Rightarrow> bool" where
  "non_ws c \<equiv> \<not> is_ws c"

text \<open>An ASCII literal of the source, such as \<^verbatim>\<open>'a b'\<close>, as a JavaScript string.\<close>

definition lit :: "string \<Rightarrow> jsstring" where
  "lit s = map of_char s"

text \<open>
  \<^verbatim>\<open>value.split( /\s+/ )\<close>. The separator matches every maximal run of whitespace
  (the quantifier is greedy and the search starts at the first position where a match
  exists). The pieces are the substrings between the runs, so a string that starts or
  ends with whitespace yields an empty first or last piece, and the empty string, where
  the separator does not match, yields the one piece \<^verbatim>\<open>''\<close>.
\<close>

function split_ws :: "jsstring \<Rightarrow> jsstring list" where
  "split_ws s =
     (case dropWhile non_ws s of
        [] \<Rightarrow> [s]
      | _ # after \<Rightarrow> takeWhile non_ws s # split_ws (dropWhile is_ws after))"
  by pat_completeness auto
termination
proof (relation "measure length")
  fix s :: jsstring and c after
  assume "dropWhile non_ws s = c # after"
  then have "length after < length s"
    using length_dropWhile_le [of non_ws s] by simp
  moreover have "length (dropWhile is_ws after) \<le> length after"
    by (rule length_dropWhile_le)
  ultimately show "(dropWhile is_ws after, s) \<in> measure length"
    by simp
qed simp

declare split_ws.simps [simp del]

text \<open>\<^verbatim>\<open>Array.prototype.join( ' ' )\<close> on an array of strings.\<close>

fun join_sp :: "jsstring list \<Rightarrow> jsstring" where
  "join_sp [] = []"
| "join_sp [x] = x"
| "join_sp (x # y # ys) = x @ 0x0020 # join_sp (y # ys)"

section \<open>The built-in \<^verbatim>\<open>Set\<close>\<close>

text \<open>
  A JavaScript \<^verbatim>\<open>Set\<close> holds each value once and iterates in insertion order:
  a list without repetitions. \<^verbatim>\<open>add\<close> appends a value that is not yet there and
  leaves the set alone otherwise; \<^verbatim>\<open>delete\<close> takes the value out.
\<close>

typedef 'a jsset = "{xs :: 'a list. distinct xs}"
  morphisms entries Abs_jsset
  by (rule exI [of _ "[]"]) simp

setup_lifting type_definition_jsset

lift_definition set_new :: "'a jsset" is "[]"
  by simp

lift_definition set_add :: "'a \<Rightarrow> 'a jsset \<Rightarrow> 'a jsset" is
  "\<lambda>x xs. if x \<in> set xs then xs else xs @ [x]"
  by simp

lift_definition set_delete :: "'a \<Rightarrow> 'a jsset \<Rightarrow> 'a jsset" is
  "\<lambda>x xs. filter (\<lambda>y. y \<noteq> x) xs"
  by simp

definition set_has :: "'a jsset \<Rightarrow> 'a \<Rightarrow> bool" where
  "set_has s x \<longleftrightarrow> x \<in> set (entries s)"

definition set_size :: "'a jsset \<Rightarrow> nat" where
  "set_size s = length (entries s)"

section \<open>TokenList\<close>

text \<open>
  The class has the one private field \<^verbatim>\<open>_set\<close>, here \<open>tset\<close> (an Isabelle name
  starts with a letter; for the same reason \<^verbatim>\<open>_clone\<close>, \<^verbatim>\<open>_getTokensMatch\<close>,
  \<^verbatim>\<open>_canMergeFrom\<close>, \<^verbatim>\<open>_mergeFrom\<close> and \<^verbatim>\<open>_isMatching\<close> lose their underscore).
  The methods \<^verbatim>\<open>set\<close> and \<^verbatim>\<open>size\<close> are \<open>set_tokens\<close> and \<open>size_tokens\<close>, since
  \<open>set\<close> and \<open>size\<close> are constants of HOL. A method that mutates the object takes
  the object and returns it updated.
\<close>

record TokenList =
  tset :: "jsstring jsset"

definition new_TokenList :: TokenList where
  "new_TokenList = \<lparr>tset = set_new\<rparr>"

definition isEmpty :: "TokenList \<Rightarrow> bool" where
  "isEmpty t \<longleftrightarrow> set_size (tset t) = 0"

definition size_tokens :: "TokenList \<Rightarrow> nat" where
  "size_tokens t = set_size (tset t)"

definition has :: "TokenList \<Rightarrow> jsstring \<Rightarrow> bool" where
  "has t name = set_has (tset t) name"

definition keys :: "TokenList \<Rightarrow> jsstring list" where
  "keys t = entries (tset t)"

definition clear :: "TokenList \<Rightarrow> TokenList" where
  "clear t = t\<lparr>tset := set_new\<rparr>"

text \<open>The loop shared by \<^verbatim>\<open>setTo\<close> and \<^verbatim>\<open>set\<close>: a token is stored when it is truthy,
  which for a string means not empty.\<close>

fun add_loop :: "jsstring list \<Rightarrow> TokenList \<Rightarrow> TokenList" where
  "add_loop [] t = t"
| "add_loop (token # rest) t =
     add_loop rest (if token \<noteq> [] then t\<lparr>tset := set_add token (tset t)\<rparr> else t)"

definition setTo :: "TokenList \<Rightarrow> jsstring \<Rightarrow> TokenList" where
  "setTo t v = add_loop (split_ws v) (clear t)"

text \<open>
  Modelled from the spec: \<^verbatim>\<open>ArrayOrItem\<close> and \<^verbatim>\<open>toArray\<close> come from the package
  \<^verbatim>\<open>@ckeditor/ckeditor5-utils\<close>. The spec gives the argument of \<^verbatim>\<open>add\<close> and
  \<^verbatim>\<open>remove\<close> as a single token or a sequence of tokens; \<open>toArray\<close> makes the
  sequence of either.
\<close>

datatype 'a ArrayOrItem = Item 'a | Array "'a list"

fun toArray :: "'a ArrayOrItem \<Rightarrow> 'a list" where
  "toArray (Item x) = [x]"
| "toArray (Array xs) = xs"

definition set_tokens :: "TokenList \<Rightarrow> jsstring ArrayOrItem \<Rightarrow> TokenList" where
  "set_tokens t tokens = add_loop (toArray tokens) t"

fun remove_loop :: "jsstring list \<Rightarrow> TokenList \<Rightarrow> TokenList" where
  "remove_loop [] t = t"
| "remove_loop (token # rest) t = remove_loop rest (t\<lparr>tset := set_delete token (tset t)\<rparr>)"

definition remove :: "TokenList \<Rightarrow> jsstring ArrayOrItem \<Rightarrow> TokenList" where
  "remove t tokens = remove_loop (toArray tokens) t"

definition toString :: "TokenList \<Rightarrow> jsstring" where
  "toString t = join_sp (entries (tset t))"

fun isSimilar_loop :: "jsstring list \<Rightarrow> TokenList \<Rightarrow> bool" where
  "isSimilar_loop [] other = True"
| "isSimilar_loop (token # rest) other =
     (if \<not> has other token then False else isSimilar_loop rest other)"

definition isSimilar :: "TokenList \<Rightarrow> TokenList \<Rightarrow> bool" where
  "isSimilar t other =
     (if size_tokens t \<noteq> size_tokens other then False else isSimilar_loop (keys t) other)"

text \<open>\<^verbatim>\<open>new Set( this._set )\<close> copies the entries in their order.\<close>

definition clone :: "TokenList \<Rightarrow> TokenList" where
  "clone t = new_TokenList\<lparr>tset := tset t\<rparr>"

subsection \<open>Matching\<close>

text \<open>
  The pattern is \<^verbatim>\<open>true | string | RegExp\<close>. Of a regular expression the method uses
  only whether \<^verbatim>\<open>token.match( patternToken )\<close> is truthy, that is, whether the
  expression matches somewhere in the token: a predicate on strings (an expression with
  the sticky flag, whose match depends on its \<^verbatim>\<open>lastIndex\<close>, is left out). The result is
  \<^verbatim>\<open>Array<[ string, string ]> | undefined\<close>, here an option, \<open>None\<close> for
  \<^verbatim>\<open>undefined\<close>.
\<close>

datatype pattern = PTrue | PString jsstring | PRegExp "jsstring \<Rightarrow> bool"

type_synonym token_match = "(jsstring \<times> jsstring) list"

fun all_loop :: "jsstring \<Rightarrow> jsstring list \<Rightarrow> token_match \<Rightarrow> token_match" where
  "all_loop k [] match = match"
| "all_loop k (token # rest) match = all_loop k rest (match @ [(k, token)])"

fun string_loop :: "TokenList \<Rightarrow> jsstring \<Rightarrow> jsstring list \<Rightarrow> token_match \<Rightarrow> token_match option" where
  "string_loop t k [] match = Some match"
| "string_loop t k (token # rest) match =
     (if set_has (tset t) token then string_loop t k rest (match @ [(k, token)]) else None)"

fun regexp_loop :: "(jsstring \<Rightarrow> bool) \<Rightarrow> jsstring \<Rightarrow> jsstring list \<Rightarrow> token_match \<Rightarrow> token_match" where
  "regexp_loop r k [] match = match"
| "regexp_loop r k (token # rest) match =
     regexp_loop r k rest (if r token then match @ [(k, token)] else match)"

fun getTokensMatch :: "TokenList \<Rightarrow> jsstring \<Rightarrow> pattern \<Rightarrow> token_match option" where
  "getTokensMatch t attributeKey PTrue = Some (all_loop attributeKey (entries (tset t)) [])"
| "getTokensMatch t attributeKey (PString patternToken) =
     string_loop t attributeKey (split_ws patternToken) []"
| "getTokensMatch t attributeKey (PRegExp patternToken) =
     (let match = regexp_loop patternToken attributeKey (entries (tset t)) []
      in if length match \<noteq> 0 then Some match else None)"

subsection \<open>Merging and matching against another list\<close>

definition canMergeFrom :: "TokenList \<Rightarrow> bool" where
  "canMergeFrom t = True"

fun mergeFrom_loop :: "jsstring list \<Rightarrow> TokenList \<Rightarrow> TokenList" where
  "mergeFrom_loop [] t = t"
| "mergeFrom_loop (token # rest) t =
     mergeFrom_loop rest
       (if \<not> set_has (tset t) token then t\<lparr>tset := set_add token (tset t)\<rparr> else t)"

definition mergeFrom :: "TokenList \<Rightarrow> TokenList \<Rightarrow> TokenList" where
  "mergeFrom t other = mergeFrom_loop (entries (tset other)) t"

fun isMatching_loop :: "jsstring list \<Rightarrow> TokenList \<Rightarrow> bool" where
  "isMatching_loop [] t = True"
| "isMatching_loop (name # rest) t =
     (if \<not> set_has (tset t) name then False else isMatching_loop rest t)"

definition isMatching :: "TokenList \<Rightarrow> TokenList \<Rightarrow> bool" where
  "isMatching t other = isMatching_loop (entries (tset other)) t"

subsection \<open>Merging between objects of a store\<close>

text \<open>
  \<^verbatim>\<open>_mergeFrom\<close> writes to \<^verbatim>\<open>this._set\<close> while it iterates over
  \<^verbatim>\<open>other._set\<close>, and the two may be the same object. In a store of objects the loop
  reads the live set of \<open>other\<close> entry by entry (an iteration over a \<^verbatim>\<open>Set\<close> also
  visits the entries added while it runs), and only the object \<open>this\<close> is written.
\<close>

type_synonym ref = nat
type_synonym store = "ref \<Rightarrow> TokenList"

function mergeFrom_at_loop :: "store \<Rightarrow> ref \<Rightarrow> ref \<Rightarrow> nat \<Rightarrow> store" where
  "mergeFrom_at_loop \<sigma> this other i =
     (if i < length (entries (tset (\<sigma> other))) then
        let token = entries (tset (\<sigma> other)) ! i in
        mergeFrom_at_loop
          (if \<not> set_has (tset (\<sigma> this)) token
           then \<sigma>(this := (\<sigma> this)\<lparr>tset := set_add token (tset (\<sigma> this))\<rparr>)
           else \<sigma>)
          this other (i + 1)
      else \<sigma>)"
  by pat_completeness auto
termination
proof (relation "measure (\<lambda>(\<sigma>, this, other, i). length (entries (tset (\<sigma> other))) - i)")
  fix \<sigma> :: store and this other i token
  assume i: "i < length (entries (tset (\<sigma> other)))"
    and token: "token = entries (tset (\<sigma> other)) ! i"
  let ?\<sigma>' = "if \<not> set_has (tset (\<sigma> this)) token
           then \<sigma>(this := (\<sigma> this)\<lparr>tset := set_add token (tset (\<sigma> this))\<rparr>)
           else \<sigma>"
  have "tset (?\<sigma>' other) = tset (\<sigma> other)"
    using i token by (auto simp: set_has_def)
  then show "((?\<sigma>', this, other, i + 1), (\<sigma>, this, other, i))
      \<in> measure (\<lambda>(\<sigma>, this, other, i). length (entries (tset (\<sigma> other))) - i)"
    using i by simp
qed simp

declare mergeFrom_at_loop.simps [simp del]

definition mergeFrom_at :: "store \<Rightarrow> ref \<Rightarrow> ref \<Rightarrow> store" where
  "mergeFrom_at \<sigma> this other = mergeFrom_at_loop \<sigma> this other 0"

subsection \<open>Lists built through the public methods\<close>

text \<open>
  The lists that a program can build: a new list, and whatever \<^verbatim>\<open>setTo\<close>,
  \<^verbatim>\<open>set\<close>, \<^verbatim>\<open>remove\<close>, \<^verbatim>\<open>clear\<close>, \<^verbatim>\<open>_mergeFrom\<close> and \<^verbatim>\<open>_clone\<close> make of such
  lists. The parameter \<open>ok\<close> says which tokens the callers hand to \<^verbatim>\<open>set\<close>:
  \<open>any_token\<close> puts no condition on them, \<open>no_ws\<close> asks that they hold no
  whitespace.
\<close>

definition any_token :: "jsstring \<Rightarrow> bool" where
  "any_token s = True"

definition no_ws :: "jsstring \<Rightarrow> bool" where
  "no_ws s = list_all non_ws s"

inductive reachable :: "(jsstring \<Rightarrow> bool) \<Rightarrow> TokenList \<Rightarrow> bool" for ok where
  r_new: "reachable ok new_TokenList"
| r_setTo: "reachable ok t \<Longrightarrow> reachable ok (setTo t v)"
| r_set: "reachable ok t \<Longrightarrow> list_all ok (toArray tokens) \<Longrightarrow> reachable ok (set_tokens t tokens)"
| r_remove: "reachable ok t \<Longrightarrow> reachable ok (remove t tokens)"
| r_clear: "reachable ok t \<Longrightarrow> reachable ok (clear t)"
| r_mergeFrom: "reachable ok t \<Longrightarrow> reachable ok other \<Longrightarrow> reachable ok (mergeFrom t other)"
| r_clone: "reachable ok t \<Longrightarrow> reachable ok (clone t)"

subsection \<open>The tokens of a string, as the specification words them\<close>

text \<open>
  A maximal run of non-whitespace of \<open>s\<close>: a non-empty stretch of \<open>s\<close> without
  whitespace that cannot be extended, so that on each side it meets the end of \<open>s\<close>
  or a whitespace character.
\<close>

definition is_maximal_run :: "jsstring \<Rightarrow> jsstring \<Rightarrow> bool" where
  "is_maximal_run w s \<longleftrightarrow>
     w \<noteq> [] \<and> list_all non_ws w \<and>
     (\<exists>pre post. s = pre @ w @ post \<and>
        (pre = [] \<or> is_ws (last pre)) \<and> (post = [] \<or> is_ws (hd post)))"

subsection \<open>A store for the examples\<close>

text \<open>Three objects: \<open>{a, b}\<close> at address 2, \<open>{b, c}\<close> at address 3, an empty list
  everywhere else.\<close>

definition example_store :: store where
  "example_store r =
     (if r = 2 then setTo new_TokenList (lit ''a b'')
      else if r = 3 then setTo new_TokenList (lit ''b c'')
      else new_TokenList)"

section \<open>Evaluation rules\<close>

lemmas set_rep = set_new.rep_eq set_add.rep_eq set_delete.rep_eq set_has_def set_size_def

lemmas tl_defs = new_TokenList_def isEmpty_def size_tokens_def has_def keys_def clear_def
  setTo_def set_tokens_def remove_def toString_def isSimilar_def clone_def mergeFrom_def
  isMatching_def canMergeFrom_def

lemma entries_distinct: "distinct (entries s)"
  using entries [of s] by simp

section \<open>Splitting and joining\<close>

lemma split_ws_plain:
  assumes "list_all non_ws s"
  shows "split_ws s = [s]"
proof -
  from assms have "dropWhile non_ws s = []"
    by (simp add: list_all_iff)
  then show ?thesis
    by (subst split_ws.simps) (simp only: list.case)
qed

lemma split_ws_Nil: "split_ws [] = [[]]"
  by (simp add: split_ws_plain)

lemma split_ws_sep:
  assumes "list_all non_ws tk" and "is_ws c"
  shows "split_ws (tk @ c # rest) = tk # split_ws (dropWhile is_ws rest)"
proof -
  from assms have "dropWhile non_ws (tk @ c # rest) = c # rest"
    by (simp add: list_all_iff dropWhile_append3)
  moreover from assms have "takeWhile non_ws (tk @ c # rest) = tk"
    by (simp add: list_all_iff takeWhile_append2)
  ultimately show ?thesis
    by (subst split_ws.simps) simp
qed

lemma split_ws_pieces: "p \<in> set (split_ws s) \<Longrightarrow> list_all non_ws p"
proof (induction s rule: split_ws.induct)
  case (1 s)
  show ?case
  proof (cases "dropWhile non_ws s")
    case Nil
    then have "list_all non_ws s" by (simp add: list_all_iff)
    with "1.prems" show ?thesis by (simp add: split_ws_plain)
  next
    case (Cons c after)
    with "1.prems" have "p = takeWhile non_ws s \<or> p \<in> set (split_ws (dropWhile is_ws after))"
      by (subst (asm) split_ws.simps) simp
    then show ?thesis
    proof
      assume "p = takeWhile non_ws s"
      then show ?thesis by (auto simp: list_all_iff dest: set_takeWhileD)
    next
      assume "p \<in> set (split_ws (dropWhile is_ws after))"
      then show ?thesis using "1.IH" Cons by simp
    qed
  qed
qed

lemma split_ws_join:
  "ts \<noteq> [] \<Longrightarrow> \<forall>t\<in>set ts. t \<noteq> [] \<and> list_all non_ws t \<Longrightarrow> split_ws (join_sp ts) = ts"
proof (induction ts rule: join_sp.induct)
  case 1
  then show ?case by simp
next
  case (2 x)
  then show ?case by (simp add: split_ws_plain)
next
  case (3 x y ys)
  have sp: "is_ws 0x0020" by (simp add: is_ws_def)
  from "3.prems" obtain c cs where y: "y = c # cs" and c: "non_ws c"
    by (cases y) auto
  have "hd (join_sp (y # ys)) = c \<and> join_sp (y # ys) \<noteq> []"
    using y by (cases ys) auto
  then have "dropWhile is_ws (join_sp (y # ys)) = join_sp (y # ys)"
    using c by (cases "join_sp (y # ys)") auto
  moreover have "split_ws (join_sp (y # ys)) = y # ys"
    using "3.IH" "3.prems" by simp
  ultimately show ?case
    using "3.prems" sp by (simp add: split_ws_sep)
qed

lemma split_ws_blank:
  assumes "list_all is_ws p"
  shows "[] \<in> set (split_ws p)"
proof (cases p)
  case Nil
  then show ?thesis by (simp add: split_ws_Nil)
next
  case (Cons c rest)
  with assms have "is_ws c" by simp
  then have "split_ws ([] @ c # rest) = [] # split_ws (dropWhile is_ws rest)"
    by (intro split_ws_sep) simp_all
  with Cons show ?thesis by simp
qed

text \<open>The non-empty pieces of a split are the maximal runs of non-whitespace.\<close>

lemma maximal_run_plain:
  assumes "list_all non_ws s"
  shows "is_maximal_run w s \<longleftrightarrow> w = s \<and> s \<noteq> []"
proof
  assume "is_maximal_run w s"
  then obtain pre post where w: "w \<noteq> []" and s: "s = pre @ w @ post"
    and pre: "pre = [] \<or> is_ws (last pre)" and post: "post = [] \<or> is_ws (hd post)"
    by (auto simp: is_maximal_run_def)
  have "pre = []"
  proof (rule ccontr)
    assume "pre \<noteq> []"
    then have "last pre \<in> set s" using s by simp
    then show False using assms pre \<open>pre \<noteq> []\<close> by (simp add: list_all_iff)
  qed
  moreover have "post = []"
  proof (rule ccontr)
    assume "post \<noteq> []"
    then have "hd post \<in> set s" using s by simp
    then show False using assms post \<open>post \<noteq> []\<close> by (simp add: list_all_iff)
  qed
  ultimately show "w = s \<and> s \<noteq> []" using s w by simp
next
  assume "w = s \<and> s \<noteq> []"
  then have "s = [] @ w @ []" and "w \<noteq> []" and "list_all non_ws w"
    using assms by simp_all
  then show "is_maximal_run w s"
    unfolding is_maximal_run_def by blast
qed

lemma maximal_run_sep:
  assumes tk: "list_all non_ws tk" and c: "is_ws c"
  shows "is_maximal_run w (tk @ c # rest) \<longleftrightarrow> (w = tk \<and> tk \<noteq> []) \<or> is_maximal_run w rest"
proof
  assume "is_maximal_run w (tk @ c # rest)"
  then obtain pre post where w: "w \<noteq> []" and nw: "list_all non_ws w"
    and s: "tk @ c # rest = pre @ w @ post"
    and pre: "pre = [] \<or> is_ws (last pre)" and post: "post = [] \<or> is_ws (hd post)"
    by (auto simp: is_maximal_run_def)
  from s consider
    (A) us where "tk = pre @ us" "us @ c # rest = w @ post"
  | (B) us where "tk @ us = pre" "c # rest = us @ w @ post"
    by (auto simp: append_eq_append_conv2)
  then show "(w = tk \<and> tk \<noteq> []) \<or> is_maximal_run w rest"
  proof cases
    case A
    have "pre = []"
    proof (rule ccontr)
      assume "pre \<noteq> []"
      then have "last pre \<in> set tk" using A(1) by simp
      then show False using tk pre \<open>pre \<noteq> []\<close> by (simp add: list_all_iff)
    qed
    with A have eq: "tk @ c # rest = w @ post" by simp
    then consider
      (A1) vs where "tk = w @ vs" "vs @ c # rest = post"
    | (A2) vs where "tk @ vs = w" "c # rest = vs @ post"
      by (auto simp: append_eq_append_conv2)
    then have "w = tk"
    proof cases
      case A1
      have "vs = []"
      proof (rule ccontr)
        assume "vs \<noteq> []"
        then have "hd post = hd vs" "hd vs \<in> set tk" "post \<noteq> []"
          using A1 by auto
        then show False using tk post by (simp add: list_all_iff)
      qed
      with A1 show ?thesis by simp
    next
      case A2
      have "vs = []"
      proof (rule ccontr)
        assume "vs \<noteq> []"
        then have "hd vs = c" using A2(2) by (cases vs) auto
        then have "c \<in> set w" using A2(1) \<open>vs \<noteq> []\<close> by (cases vs) auto
        then show False using nw c by (simp add: list_all_iff)
      qed
      with A2 show ?thesis by simp
    qed
    with w show ?thesis by simp
  next
    case B
    have "us \<noteq> []"
    proof
      assume "us = []"
      with B(2) w have "c \<in> set w" by (cases w) auto
      then show False using nw c by (simp add: list_all_iff)
    qed
    then obtain us' where us: "us = c # us'" and rest: "rest = us' @ w @ post"
      using B(2) by (cases us) auto
    have "us' = [] \<or> is_ws (last us')"
      using pre B(1) us by (auto split: if_splits)
    with rest w nw post have "is_maximal_run w rest"
      unfolding is_maximal_run_def by blast
    then show ?thesis ..
  qed
next
  assume "(w = tk \<and> tk \<noteq> []) \<or> is_maximal_run w rest"
  then show "is_maximal_run w (tk @ c # rest)"
  proof
    assume "w = tk \<and> tk \<noteq> []"
    then have "tk @ c # rest = [] @ w @ (c # rest)" "w \<noteq> []" "list_all non_ws w"
      "is_ws (hd (c # rest))"
      using tk c by simp_all
    then show ?thesis
      unfolding is_maximal_run_def by blast
  next
    assume "is_maximal_run w rest"
    then obtain pre post where w: "w \<noteq> []" and nw: "list_all non_ws w"
      and s: "rest = pre @ w @ post"
      and pre: "pre = [] \<or> is_ws (last pre)" and post: "post = [] \<or> is_ws (hd post)"
      by (auto simp: is_maximal_run_def)
    have "tk @ c # rest = (tk @ c # pre) @ w @ post"
      using s by simp
    moreover have "is_ws (last (tk @ c # pre))"
      using pre c by auto
    ultimately show ?thesis
      using w nw post unfolding is_maximal_run_def by blast
  qed
qed

lemma maximal_run_dropWhile:
  "is_maximal_run w (dropWhile is_ws s) \<longleftrightarrow> is_maximal_run w s"
proof (induction s)
  case Nil
  show ?case by simp
next
  case (Cons c s)
  show ?case
  proof (cases "is_ws c")
    case True
    then have "is_maximal_run w ([] @ c # s) \<longleftrightarrow> (w = [] \<and> ([]::jsstring) \<noteq> []) \<or> is_maximal_run w s"
      by (intro maximal_run_sep) simp_all
    with True Cons show ?thesis by simp
  next
    case False
    then show ?thesis by simp
  qed
qed

lemma split_ws_runs:
  "w \<in> set (split_ws s) \<and> w \<noteq> [] \<longleftrightarrow> is_maximal_run w s"
proof (induction s rule: split_ws.induct)
  case (1 s)
  show ?case
  proof (cases "dropWhile non_ws s")
    case Nil
    then have "list_all non_ws s" by (simp add: list_all_iff)
    then show ?thesis
      by (auto simp: split_ws_plain maximal_run_plain)
  next
    case (Cons c after)
    let ?tk = "takeWhile non_ws s"
    have s: "s = ?tk @ c # after"
      using Cons takeWhile_dropWhile_id [of non_ws s] by simp
    have tk: "list_all non_ws ?tk"
      by (auto simp: list_all_iff dest: set_takeWhileD)
    have c: "is_ws c"
      using Cons hd_dropWhile [of non_ws s] by auto
    have "split_ws s = ?tk # split_ws (dropWhile is_ws after)"
      using split_ws_sep [OF tk c, of after] s by simp
    moreover have "is_maximal_run w s \<longleftrightarrow> (w = ?tk \<and> ?tk \<noteq> []) \<or> is_maximal_run w after"
      using maximal_run_sep [OF tk c, of w after] s by simp
    moreover have "w \<in> set (split_ws (dropWhile is_ws after)) \<and> w \<noteq> []
        \<longleftrightarrow> is_maximal_run w (dropWhile is_ws after)"
      using "1.IH" Cons by simp
    ultimately show ?thesis
      by (auto simp: maximal_run_dropWhile)
  qed
qed

text \<open>The splits of the literals used as examples below.\<close>

lemma split_a: "split_ws (lit ''a'') = [lit ''a'']"
  by (simp add: split_ws.simps lit_def is_ws_def)

lemma split_b: "split_ws (lit ''b'') = [lit ''b'']"
  by (simp add: split_ws.simps lit_def is_ws_def)

lemma split_a_b: "split_ws (lit ''a b'') = [lit ''a'', lit ''b'']"
  by (simp add: split_ws.simps lit_def is_ws_def)

lemma split_b_a: "split_ws (lit ''b a'') = [lit ''b'', lit ''a'']"
  by (simp add: split_ws.simps lit_def is_ws_def)

lemma split_c_d: "split_ws (lit ''c d'') = [lit ''c'', lit ''d'']"
  by (simp add: split_ws.simps lit_def is_ws_def)

section \<open>What the loops compute\<close>

lemma add_loop_set:
  "set (entries (tset (add_loop xs t))) = set (entries (tset t)) \<union> {x \<in> set xs. x \<noteq> []}"
  by (induction xs arbitrary: t) (auto simp: set_add.rep_eq)

lemma add_loop_fresh:
  "distinct xs \<Longrightarrow> [] \<notin> set xs \<Longrightarrow> set xs \<inter> set (entries (tset t)) = {}
   \<Longrightarrow> entries (tset (add_loop xs t)) = entries (tset t) @ xs"
  by (induction xs arbitrary: t) (auto simp: set_add.rep_eq)

lemma remove_loop_entries:
  "entries (tset (remove_loop xs t)) = filter (\<lambda>y. y \<notin> set xs) (entries (tset t))"
  by (induction xs arbitrary: t) (auto simp: set_delete.rep_eq intro: filter_cong)

lemma isSimilar_loop_iff: "isSimilar_loop xs other \<longleftrightarrow> set xs \<subseteq> set (entries (tset other))"
  by (induction xs) (auto simp: has_def set_has_def)

lemma isMatching_loop_iff: "isMatching_loop xs t \<longleftrightarrow> set xs \<subseteq> set (entries (tset t))"
  by (induction xs) (auto simp: set_has_def)

lemma all_loop_eq: "all_loop k xs m = m @ map (Pair k) xs"
  by (induction xs arbitrary: m) auto

lemma string_loop_eq:
  "string_loop t k xs m =
     (if set xs \<subseteq> set (entries (tset t)) then Some (m @ map (Pair k) xs) else None)"
  by (induction xs arbitrary: m) (auto simp: set_has_def)

lemma regexp_loop_eq: "regexp_loop r k xs m = m @ map (Pair k) (filter r xs)"
  by (induction xs arbitrary: m) auto

lemma mergeFrom_loop_set:
  "set (entries (tset (mergeFrom_loop xs t))) = set (entries (tset t)) \<union> set xs"
  by (induction xs arbitrary: t) (auto simp: set_add.rep_eq set_has_def)

lemma mergeFrom_loop_entries:
  "distinct xs \<Longrightarrow> entries (tset (mergeFrom_loop xs t)) =
     entries (tset t) @ filter (\<lambda>x. x \<notin> set (entries (tset t))) xs"
  by (induction xs arbitrary: t) (auto simp: set_add.rep_eq set_has_def intro: filter_cong)

section \<open>What every reachable list satisfies\<close>

lemma list_all_any_token: "list_all any_token xs"
  by (simp add: list_all_iff any_token_def)

lemma reachable_nonempty:
  "reachable ok t \<Longrightarrow> [] \<notin> set (entries (tset t))"
proof (induction rule: reachable.induct)
  case r_new
  show ?case by (simp add: new_TokenList_def set_new.rep_eq)
next
  case (r_setTo t v)
  show ?case by (simp add: setTo_def add_loop_set clear_def set_new.rep_eq)
next
  case (r_set t tokens)
  then show ?case by (simp add: set_tokens_def add_loop_set)
next
  case (r_remove t tokens)
  then show ?case by (simp add: remove_def remove_loop_entries)
next
  case (r_clear t)
  show ?case by (simp add: clear_def set_new.rep_eq)
next
  case (r_mergeFrom t other)
  then show ?case by (simp add: mergeFrom_def mergeFrom_loop_set)
next
  case (r_clone t)
  then show ?case by (simp add: clone_def)
qed

lemma reachable_no_ws:
  assumes ok: "\<And>s. ok s \<Longrightarrow> no_ws s"
  shows "reachable ok t \<Longrightarrow> \<forall>token \<in> set (entries (tset t)). no_ws token"
proof (induction rule: reachable.induct)
  case r_new
  show ?case by (simp add: new_TokenList_def set_new.rep_eq)
next
  case (r_setTo t v)
  show ?case
    by (auto simp: setTo_def add_loop_set clear_def set_new.rep_eq no_ws_def
        dest: split_ws_pieces)
next
  case (r_set t tokens)
  then show ?case
    using ok by (auto simp: set_tokens_def add_loop_set list_all_iff)
next
  case (r_remove t tokens)
  then show ?case by (simp add: remove_def remove_loop_entries)
next
  case (r_clear t)
  show ?case by (simp add: clear_def set_new.rep_eq)
next
  case (r_mergeFrom t other)
  then show ?case by (auto simp: mergeFrom_def mergeFrom_loop_set)
next
  case (r_clone t)
  then show ?case by (simp add: clone_def)
qed

section \<open>Adding and removing\<close>

text \<open>
  C9. From an empty list, \<^verbatim>\<open>set( [ 'x', 'y' ] )\<close> and then \<^verbatim>\<open>remove( 'x' )\<close> leave one
  token: the size is 1, \<^verbatim>\<open>has( 'y' )\<close> holds and \<^verbatim>\<open>has( 'x' )\<close> does not. No method of
  the class throws, so each is a total function of the model.
\<close>

theorem add_then_remove:
  "size_tokens (remove (set_tokens new_TokenList (Array [lit ''x'', lit ''y''])) (Item (lit ''x''))) = 1
   \<and> has (remove (set_tokens new_TokenList (Array [lit ''x'', lit ''y''])) (Item (lit ''x''))) (lit ''y'')
   \<and> \<not> has (remove (set_tokens new_TokenList (Array [lit ''x'', lit ''y''])) (Item (lit ''x''))) (lit ''x'')
   \<and> keys (remove (set_tokens new_TokenList (Array [lit ''x'', lit ''y''])) (Item (lit ''x''))) = [lit ''y'']"
  by (simp add: tl_defs set_rep lit_def)

section \<open>Matching a pattern\<close>

text \<open>
  C2. For every list \<open>t\<close>, key \<open>k\<close> and string pattern \<open>p\<close>, \<^verbatim>\<open>_getTokensMatch( k, p )\<close>
  splits \<open>p\<close> on whitespace runs. When every piece is a token of \<open>t\<close> the result is the
  list of the pairs of \<open>k\<close> and a piece, in the order of the pieces; when some piece is
  missing the result is \<^verbatim>\<open>undefined\<close>, never a shorter list of pairs.
\<close>

theorem string_pattern_all_or_nothing:
  "getTokensMatch t k (PString p) =
     (if \<forall>token \<in> set (split_ws p). has t token
      then Some (map (\<lambda>token. (k, token)) (split_ws p))
      else None)"
  by (auto simp: string_loop_eq has_def set_has_def)

theorem string_pattern_all_or_nothing_witness:
  "getTokensMatch (setTo new_TokenList (lit ''a'')) (lit ''class'') (PString (lit ''a b'')) = None
   \<and> getTokensMatch (setTo new_TokenList (lit ''a b'')) (lit ''class'') (PString (lit ''a b''))
       = Some [(lit ''class'', lit ''a''), (lit ''class'', lit ''b'')]"
proof -
  have 1: "\<not> has (setTo new_TokenList (lit ''a'')) (lit ''b'')"
    by (simp add: split_a tl_defs set_rep) (simp add: lit_def)
  have 2: "has (setTo new_TokenList (lit ''a b'')) (lit ''a'')" "has (setTo new_TokenList (lit ''a b'')) (lit ''b'')"
    by (simp_all add: split_a_b tl_defs set_rep) (simp_all add: lit_def)
  show ?thesis
    using string_pattern_all_or_nothing [of "setTo new_TokenList (lit ''a'')" "lit ''class''" "lit ''a b''"]
      string_pattern_all_or_nothing [of "setTo new_TokenList (lit ''a b'')" "lit ''class''" "lit ''a b''"]
      1 2
    by (simp add: split_a_b)
qed

text \<open>
  C3. For every list \<open>t\<close> and key \<open>k\<close>, \<^verbatim>\<open>_getTokensMatch( k, true )\<close> returns a list
  with one pair of \<open>k\<close> and a token for each stored token, which for an empty \<open>t\<close> is
  the empty list and not \<^verbatim>\<open>undefined\<close>. A regular expression that matches no stored
  token returns \<^verbatim>\<open>undefined\<close>, so the two results differ.
\<close>

theorem true_pattern_versus_regexp:
  "getTokensMatch t k PTrue = Some (map (\<lambda>token. (k, token)) (keys t))
   \<and> (isEmpty t \<longrightarrow> getTokensMatch t k PTrue = Some [])
   \<and> ((\<forall>token \<in> set (keys t). \<not> r token) \<longrightarrow> getTokensMatch t k (PRegExp r) = None)
   \<and> ((\<forall>token \<in> set (keys t). \<not> r token) \<longrightarrow> getTokensMatch t k PTrue \<noteq> getTokensMatch t k (PRegExp r))"
  by (auto simp: all_loop_eq regexp_loop_eq keys_def isEmpty_def set_size_def filter_empty_conv)

theorem true_pattern_versus_regexp_witness:
  "getTokensMatch new_TokenList (lit ''class'') PTrue = Some []
   \<and> getTokensMatch new_TokenList (lit ''class'') (PRegExp (\<lambda>token. hd token = 0x61)) = None
   \<and> getTokensMatch (setTo new_TokenList (lit ''b'')) (lit ''class'') (PRegExp (\<lambda>token. hd token = 0x61)) = None
   \<and> getTokensMatch (setTo new_TokenList (lit ''b'')) (lit ''class'') PTrue = Some [(lit ''class'', lit ''b'')]"
proof -
  have kb: "keys (setTo new_TokenList (lit ''b'')) = [lit ''b'']"
    by (simp add: split_b tl_defs set_rep) (simp add: lit_def)
  have e: "isEmpty new_TokenList" "keys new_TokenList = []"
    by (simp_all add: tl_defs set_rep)
  have nb: "\<forall>token \<in> set (keys (setTo new_TokenList (lit ''b''))). \<not> hd token = 0x61"
    by (simp add: kb) (simp add: lit_def)
  show ?thesis
    using true_pattern_versus_regexp [of new_TokenList "lit ''class''" "\<lambda>token. hd token = 0x61"]
      true_pattern_versus_regexp [of "setTo new_TokenList (lit ''b'')" "lit ''class''" "\<lambda>token. hd token = 0x61"]
      e nb
    by (simp add: kb)
qed

text \<open>
  C10. For every list \<open>t\<close> that a program can build and every key \<open>k\<close>, a string
  pattern that is empty or holds only whitespace makes \<^verbatim>\<open>_getTokensMatch\<close> return
  \<^verbatim>\<open>undefined\<close>, also when \<open>t\<close> has tokens: the split of such a pattern has an
  empty piece, and the empty string is never stored.
\<close>

theorem blank_pattern_never_matches:
  "reachable any_token t \<Longrightarrow> list_all is_ws p \<Longrightarrow> getTokensMatch t k (PString p) = None"
  using reachable_nonempty [of any_token t] split_ws_blank [of p]
  by (auto simp: string_loop_eq)

theorem blank_pattern_never_matches_witness:
  "reachable any_token (setTo new_TokenList (lit ''a b''))
   \<and> keys (setTo new_TokenList (lit ''a b'')) = [lit ''a'', lit ''b'']
   \<and> getTokensMatch (setTo new_TokenList (lit ''a b'')) (lit ''class'') (PString (lit '''')) = None
   \<and> getTokensMatch (setTo new_TokenList (lit ''a b'')) (lit ''class'') (PString (lit ''   '')) = None"
proof -
  let ?t = "setTo new_TokenList (lit ''a b'')"
  have r: "reachable any_token ?t"
    by (intro reachable.intros)
  have k: "keys ?t = [lit ''a'', lit ''b'']"
    by (simp add: split_a_b tl_defs set_rep) (simp add: lit_def)
  have e: "list_all is_ws (lit '''')" and b: "list_all is_ws (lit ''   '')"
    by (simp_all add: lit_def is_ws_def)
  show ?thesis
    using blank_pattern_never_matches [OF r e] blank_pattern_never_matches [OF r b] r k
    by simp
qed

section \<open>Comparing two lists\<close>

lemma isSimilar_iff:
  "isSimilar a b \<longleftrightarrow> set (entries (tset a)) = set (entries (tset b))"
proof -
  let ?A = "entries (tset a)" and ?B = "entries (tset b)"
  have dA: "card (set ?A) = length ?A" and dB: "card (set ?B) = length ?B"
    by (simp_all add: distinct_card entries_distinct)
  have "length ?A = length ?B \<and> set ?A \<subseteq> set ?B \<longleftrightarrow> set ?A = set ?B"
  proof
    assume "length ?A = length ?B \<and> set ?A \<subseteq> set ?B"
    then show "set ?A = set ?B"
      using dA dB by (simp add: card_subset_eq)
  next
    assume "set ?A = set ?B"
    then show "length ?A = length ?B \<and> set ?A \<subseteq> set ?B"
      using dA dB by simp
  qed
  then show ?thesis
    by (auto simp: isSimilar_def size_tokens_def set_size_def keys_def isSimilar_loop_iff)
qed

text \<open>
  C7. \<^verbatim>\<open>isSimilar\<close> is reflexive; between two lists of equal size it is symmetric;
  and two lists of equal size, not zero, that share no token are not similar.
\<close>

theorem isSimilar_properties:
  "isSimilar t t
   \<and> (size_tokens a = size_tokens b \<longrightarrow> isSimilar a b = isSimilar b a)
   \<and> (size_tokens a = size_tokens b \<and> size_tokens a \<noteq> 0 \<and> set (keys a) \<inter> set (keys b) = {}
        \<longrightarrow> \<not> isSimilar a b)"
proof (intro conjI impI)
  show "isSimilar t t" by (simp add: isSimilar_iff)
  show "isSimilar a b = isSimilar b a" by (auto simp: isSimilar_iff)
  assume h: "size_tokens a = size_tokens b \<and> size_tokens a \<noteq> 0 \<and> set (keys a) \<inter> set (keys b) = {}"
  then have "entries (tset a) \<noteq> []"
    by (simp add: size_tokens_def set_size_def)
  then have "set (entries (tset a)) \<noteq> {}" by simp
  with h show "\<not> isSimilar a b"
    by (auto simp: isSimilar_iff keys_def)
qed

theorem isSimilar_properties_witness:
  "isSimilar (setTo new_TokenList (lit ''a b'')) (setTo new_TokenList (lit ''a b''))
   \<and> isSimilar (setTo new_TokenList (lit ''a b'')) (setTo new_TokenList (lit ''b a''))
   \<and> isSimilar (setTo new_TokenList (lit ''b a'')) (setTo new_TokenList (lit ''a b''))
   \<and> \<not> isSimilar (setTo new_TokenList (lit ''a b'')) (setTo new_TokenList (lit ''c d''))"
proof -
  let ?ab = "setTo new_TokenList (lit ''a b'')" and ?ba = "setTo new_TokenList (lit ''b a'')"
    and ?cd = "setTo new_TokenList (lit ''c d'')"
  have k: "keys ?ab = [lit ''a'', lit ''b'']" "keys ?ba = [lit ''b'', lit ''a'']"
      "keys ?cd = [lit ''c'', lit ''d'']"
    by (simp_all add: split_a_b split_b_a split_c_d tl_defs set_rep) (simp_all add: lit_def)
  have s: "size_tokens ?ab = 2" "size_tokens ?ba = 2" "size_tokens ?cd = 2"
    using k by (simp_all add: size_tokens_def set_size_def keys_def)
  have d: "set (keys ?ab) \<inter> set (keys ?cd) = {}"
    by (simp add: k) (simp add: lit_def)
  have direct: "isSimilar ?ab ?ba"
    by (simp add: isSimilar_def s k has_def set_has_def) (simp add: k [unfolded keys_def])
  have eq: "size_tokens ?ab = size_tokens ?ba"
    by (simp add: s)
  have pre: "size_tokens ?ab = size_tokens ?cd \<and> size_tokens ?ab \<noteq> 0
      \<and> set (keys ?ab) \<inter> set (keys ?cd) = {}"
    by (simp add: s d)
  note th = isSimilar_properties [where t = ?ab and a = ?ab and b = ?ba]
  note th' = isSimilar_properties [where t = ?ab and a = ?ab and b = ?cd]
  have "isSimilar ?ab ?ab"
    by (rule th [THEN conjunct1])
  moreover have "isSimilar ?ba ?ab"
    using th [THEN conjunct2, THEN conjunct1, rule_format, OF eq] direct by simp
  moreover have "\<not> isSimilar ?ab ?cd"
    by (rule th' [THEN conjunct2, THEN conjunct2, rule_format, OF pre])
  ultimately show ?thesis
    using direct by simp
qed

text \<open>
  C8. \<^verbatim>\<open>A._isMatching( B )\<close> holds exactly when every token of \<open>B\<close> is a token of
  \<open>A\<close>. The direction is from the argument to the receiver: an empty \<open>B\<close> matches
  every \<open>A\<close>, and a \<open>B\<close> whose tokens strictly include those of \<open>A\<close> does not
  match \<open>A\<close>.
\<close>

theorem isMatching_iff:
  "(isMatching a b \<longleftrightarrow> (\<forall>token \<in> set (keys b). has a token))
   \<and> (isEmpty b \<longrightarrow> isMatching a b)
   \<and> (set (keys a) \<subset> set (keys b) \<longrightarrow> \<not> isMatching a b)"
  by (auto simp: isMatching_def isMatching_loop_iff keys_def has_def set_has_def isEmpty_def
      set_size_def)

theorem isMatching_iff_witness:
  "isMatching (setTo new_TokenList (lit ''a b'')) (setTo new_TokenList (lit ''a''))
   \<and> \<not> isMatching (setTo new_TokenList (lit ''a'')) (setTo new_TokenList (lit ''a b''))
   \<and> isMatching (setTo new_TokenList (lit ''a'')) new_TokenList"
proof -
  let ?ab = "setTo new_TokenList (lit ''a b'')" and ?a = "setTo new_TokenList (lit ''a'')"
  have k: "keys ?ab = [lit ''a'', lit ''b'']" "keys ?a = [lit ''a'']"
    by (simp_all add: split_a_b split_a tl_defs set_rep) (simp_all add: lit_def)
  have e: "isEmpty new_TokenList"
    by (simp add: tl_defs set_rep)
  have sub: "set (keys ?a) \<subset> set (keys ?ab)"
    by (simp add: k) (auto simp: lit_def)
  have h: "\<forall>token \<in> set (keys ?a). has ?ab token"
    by (simp add: k has_def set_has_def k [unfolded keys_def])
  have "isMatching ?ab ?a"
    using isMatching_iff [where a = ?ab and b = ?a, THEN conjunct1] h by simp
  moreover have "\<not> isMatching ?a ?ab"
    by (rule isMatching_iff [where a = ?a and b = ?ab, THEN conjunct2, THEN conjunct2, rule_format, OF sub])
  moreover have "isMatching ?a new_TokenList"
    by (rule isMatching_iff [where a = ?a and b = new_TokenList, THEN conjunct2, THEN conjunct1, rule_format, OF e])
  ultimately show ?thesis
    by simp
qed

section \<open>Parsing and serialising\<close>

lemma setTo_entries_props:
  "[] \<notin> set (entries (tset (setTo t v)))"
  "token \<in> set (entries (tset (setTo t v))) \<Longrightarrow> list_all non_ws token"
  by (auto simp: setTo_def add_loop_set clear_def set_new.rep_eq dest: split_ws_pieces)

lemma setTo_join:
  assumes "distinct ts" and "[] \<notin> set ts" and "\<forall>token \<in> set ts. list_all non_ws token"
  shows "entries (tset (setTo t (join_sp ts))) = ts"
proof (cases "ts = []")
  case True
  then show ?thesis
    by (simp add: setTo_def split_ws_Nil clear_def set_new.rep_eq)
next
  case False
  with assms have "split_ws (join_sp ts) = ts"
    by (intro split_ws_join) auto
  with assms show ?thesis
    by (simp add: setTo_def add_loop_fresh clear_def set_new.rep_eq)
qed

text \<open>
  C6. For every string \<open>v\<close>, \<^verbatim>\<open>setTo( v )\<close> drops what the list held before and
  stores exactly the maximal runs of non-whitespace characters of \<open>v\<close>, each once; no
  empty token comes from whitespace at the start or the end. In particular
  \<^verbatim>\<open>setTo( '' )\<close> and \<^verbatim>\<open>setTo( '   ' )\<close> leave the list empty.
\<close>

theorem setTo_stores_maximal_runs:
  "set (keys (setTo t v)) = {w. is_maximal_run w v}
   \<and> distinct (keys (setTo t v))
   \<and> [] \<notin> set (keys (setTo t v))
   \<and> keys (setTo t v) = keys (setTo new_TokenList v)
   \<and> isEmpty (setTo t (lit ''''))
   \<and> isEmpty (setTo t (lit ''   ''))"
proof (intro conjI)
  have "set (keys (setTo t v)) = {w \<in> set (split_ws v). w \<noteq> []}"
    by (simp add: keys_def setTo_def add_loop_set clear_def set_new.rep_eq)
  then show "set (keys (setTo t v)) = {w. is_maximal_run w v}"
    using split_ws_runs [of _ v] by auto
  show "distinct (keys (setTo t v))"
    by (simp add: keys_def entries_distinct)
  show "[] \<notin> set (keys (setTo t v))"
    by (simp add: keys_def setTo_entries_props)
  show "keys (setTo t v) = keys (setTo new_TokenList v)"
    by (cases t) (simp add: setTo_def clear_def new_TokenList_def)
  have "split_ws (lit '''') = [[]]"
    by (simp add: lit_def split_ws_Nil)
  then show "isEmpty (setTo t (lit ''''))"
    by (simp add: setTo_def clear_def isEmpty_def set_size_def set_new.rep_eq)
  have "split_ws (lit ''   '') = [[], []]"
    by (simp add: split_ws.simps lit_def is_ws_def)
  then show "isEmpty (setTo t (lit ''   ''))"
    by (simp add: setTo_def clear_def isEmpty_def set_size_def set_new.rep_eq)
qed

theorem setTo_stores_maximal_runs_witness:
  "keys (setTo (set_tokens new_TokenList (Item (lit ''z''))) (lit '' a b  a '')) = [lit ''a'', lit ''b'']
   \<and> {w. is_maximal_run w (lit '' a b  a '')} = {lit ''a'', lit ''b''}
   \<and> isEmpty (setTo (set_tokens new_TokenList (Item (lit ''z''))) (lit ''''))
   \<and> isEmpty (setTo (set_tokens new_TokenList (Item (lit ''z''))) (lit ''   ''))"
proof -
  let ?t = "set_tokens new_TokenList (Item (lit ''z''))"
  have sp: "split_ws (lit '' a b  a '') = [[], lit ''a'', lit ''b'', lit ''a'', []]"
    by (simp add: split_ws.simps lit_def is_ws_def)
  have k: "keys (setTo ?t (lit '' a b  a '')) = [lit ''a'', lit ''b'']"
    by (simp add: sp tl_defs set_rep) (simp add: lit_def)
  note th = setTo_stores_maximal_runs [where t = ?t and v = "lit '' a b  a ''"]
  have "set (keys (setTo ?t (lit '' a b  a ''))) = {w. is_maximal_run w (lit '' a b  a '')}"
    by (rule th [THEN conjunct1])
  then have "{w. is_maximal_run w (lit '' a b  a '')} = {lit ''a'', lit ''b''}"
    by (simp add: k)
  moreover have "isEmpty (setTo ?t (lit '''')) \<and> isEmpty (setTo ?t (lit ''   ''))"
    using th by blast
  ultimately show ?thesis
    using k by simp
qed

text \<open>
  C4. For every string \<open>s\<close>, with \<open>r\<close> the result of \<^verbatim>\<open>toString\<close> after
  \<^verbatim>\<open>setTo( s )\<close> on a new list, \<^verbatim>\<open>toString\<close> after \<^verbatim>\<open>setTo( r )\<close> on a new list is
  \<open>r\<close> again.
\<close>

theorem toString_setTo_fixed_point:
  "toString (setTo new_TokenList (toString (setTo new_TokenList s)))
     = toString (setTo new_TokenList s)"
proof -
  let ?ts = "entries (tset (setTo new_TokenList s))"
  have "entries (tset (setTo new_TokenList (join_sp ?ts))) = ?ts"
    by (intro setTo_join) (auto simp: entries_distinct setTo_entries_props)
  then show ?thesis
    by (simp add: toString_def)
qed

theorem toString_setTo_fixed_point_witness:
  "toString (setTo new_TokenList (lit '' a b  a '')) = lit ''a b''
   \<and> toString (setTo new_TokenList (lit ''a b'')) = lit ''a b''"
proof -
  have sp: "split_ws (lit '' a b  a '') = [[], lit ''a'', lit ''b'', lit ''a'', []]"
    by (simp add: split_ws.simps lit_def is_ws_def)
  have 1: "toString (setTo new_TokenList (lit '' a b  a '')) = lit ''a b''"
    by (simp add: sp tl_defs set_rep) (simp add: lit_def)
  show ?thesis
    using toString_setTo_fixed_point [of "lit '' a b  a ''"] by (simp add: 1)
qed

section \<open>The invariant of the stored tokens\<close>

text \<open>
  C1, as the code has it. For every list built from a new list by \<^verbatim>\<open>setTo\<close>,
  \<^verbatim>\<open>set\<close>, \<^verbatim>\<open>remove\<close>, \<^verbatim>\<open>clear\<close>, \<^verbatim>\<open>_mergeFrom\<close> and \<^verbatim>\<open>_clone\<close>, no token
  is stored twice and no stored token is the empty string. \<^verbatim>\<open>set\<close> stores the tokens
  it is given as they are, so the stored tokens are free of whitespace when the tokens
  handed to \<^verbatim>\<open>set\<close> are.
\<close>

theorem reachable_tokens_invariant:
  "reachable ok t \<Longrightarrow>
     distinct (keys t) \<and> [] \<notin> set (keys t)
     \<and> ((\<forall>s. ok s \<longrightarrow> no_ws s) \<longrightarrow> list_all no_ws (keys t))"
  using reachable_nonempty [of ok t] reachable_no_ws [of ok t]
  by (simp add: keys_def entries_distinct list_all_iff)

theorem reachable_tokens_invariant_witness:
  "reachable no_ws (mergeFrom (remove (set_tokens new_TokenList (Array [lit ''x'', lit '''', lit ''y''])) (Item (lit ''x'')))
      (clone (setTo new_TokenList (lit '' a b  a ''))))
   \<and> keys (mergeFrom (remove (set_tokens new_TokenList (Array [lit ''x'', lit '''', lit ''y''])) (Item (lit ''x'')))
      (clone (setTo new_TokenList (lit '' a b  a '')))) = [lit ''y'', lit ''a'', lit ''b'']
   \<and> distinct [lit ''y'', lit ''a'', lit ''b'']
   \<and> [] \<notin> set [lit ''y'', lit ''a'', lit ''b'']
   \<and> list_all no_ws [lit ''y'', lit ''a'', lit ''b'']"
proof -
  let ?t = "mergeFrom (remove (set_tokens new_TokenList (Array [lit ''x'', lit '''', lit ''y''])) (Item (lit ''x'')))
      (clone (setTo new_TokenList (lit '' a b  a '')))"
  have ok: "list_all no_ws (toArray (Array [lit ''x'', lit '''', lit ''y'']))"
    by (simp add: no_ws_def lit_def is_ws_def)
  have r: "reachable no_ws ?t"
    by (intro reachable.intros ok)
  have sp: "split_ws (lit '' a b  a '') = [[], lit ''a'', lit ''b'', lit ''a'', []]"
    by (simp add: split_ws.simps lit_def is_ws_def)
  have k: "keys ?t = [lit ''y'', lit ''a'', lit ''b'']"
    by (simp add: sp tl_defs set_rep) (simp add: lit_def)
  show ?thesis
    using reachable_tokens_invariant [OF r] r k by simp
qed

text \<open>
  C1 as stated also asks that no stored token contains whitespace whatever \<^verbatim>\<open>set\<close>
  is given. \<^verbatim>\<open>set( 'a b' )\<close> on a new list stores the token \<^verbatim>\<open>'a b'\<close>.
\<close>

theorem whitespace_token_counterexample:
  "reachable any_token (set_tokens new_TokenList (Item (lit ''a b'')))
   \<and> keys (set_tokens new_TokenList (Item (lit ''a b''))) = [lit ''a b'']
   \<and> \<not> no_ws (lit ''a b'')"
proof -
  have "reachable any_token (set_tokens new_TokenList (Item (lit ''a b'')))"
    by (intro reachable.intros list_all_any_token)
  moreover have "keys (set_tokens new_TokenList (Item (lit ''a b''))) = [lit ''a b'']"
    by (simp add: tl_defs set_rep) (simp add: lit_def)
  moreover have "\<not> no_ws (lit ''a b'')"
    by (simp add: no_ws_def lit_def is_ws_def)
  ultimately show ?thesis by simp
qed

section \<open>Merging\<close>

lemma mergeFrom_loop_present:
  "set xs \<subseteq> set (entries (tset t)) \<Longrightarrow> mergeFrom_loop xs t = t"
  by (induction xs) (auto simp: set_has_def)

lemma mergeFrom_self: "mergeFrom t t = t"
  by (simp add: mergeFrom_def mergeFrom_loop_present)

lemma mergeFrom_at_loop_same:
  "this = other \<Longrightarrow> mergeFrom_at_loop \<sigma> this other i = \<sigma>"
proof (induction \<sigma> this other i rule: mergeFrom_at_loop.induct)
  case (1 \<sigma> this other i)
  show ?case
  proof (cases "i < length (entries (tset (\<sigma> other)))")
    case True
    then have "set_has (tset (\<sigma> this)) (entries (tset (\<sigma> other)) ! i)"
      using "1.prems" by (simp add: set_has_def)
    with True "1.IH" [OF True refl "1.prems"] show ?thesis
      by (subst mergeFrom_at_loop.simps) simp
  next
    case False
    then show ?thesis
      by (subst mergeFrom_at_loop.simps) simp
  qed
qed

lemma mergeFrom_at_loop_other:
  "this \<noteq> other \<Longrightarrow>
     mergeFrom_at_loop \<sigma> this other i =
       \<sigma>(this := mergeFrom_loop (drop i (entries (tset (\<sigma> other)))) (\<sigma> this))"
proof (induction \<sigma> this other i rule: mergeFrom_at_loop.induct)
  case (1 \<sigma> this other i)
  let ?xs = "entries (tset (\<sigma> other))"
  show ?case
  proof (cases "i < length ?xs")
    case True
    let ?\<sigma>' = "if \<not> set_has (tset (\<sigma> this)) (?xs ! i)
           then \<sigma>(this := (\<sigma> this)\<lparr>tset := set_add (?xs ! i) (tset (\<sigma> this))\<rparr>)
           else \<sigma>"
    have d: "drop i ?xs = ?xs ! i # drop (Suc i) ?xs"
      using True by (simp add: Cons_nth_drop_Suc)
    have o: "?\<sigma>' other = \<sigma> other"
      using "1.prems" by simp
    have "mergeFrom_at_loop \<sigma> this other i = mergeFrom_at_loop ?\<sigma>' this other (i + 1)"
      using True by (subst mergeFrom_at_loop.simps) (simp add: Let_def)
    also have "\<dots> = ?\<sigma>'(this := mergeFrom_loop (drop (i + 1) (entries (tset (?\<sigma>' other)))) (?\<sigma>' this))"
      using "1.IH" [OF True refl "1.prems"] .
    also have "\<dots> = \<sigma>(this := mergeFrom_loop (drop i ?xs) (\<sigma> this))"
      unfolding o d by simp
    finally show ?thesis .
  next
    case False
    then show ?thesis
      by (subst mergeFrom_at_loop.simps) simp
  qed
qed

lemma mergeFrom_at_value:
  "mergeFrom_at \<sigma> a b = (if a = b then \<sigma> else \<sigma>(a := mergeFrom (\<sigma> a) (\<sigma> b)))"
  by (simp add: mergeFrom_at_def mergeFrom_at_loop_same mergeFrom_at_loop_other mergeFrom_def)

lemma mergeFrom_at_this: "mergeFrom_at \<sigma> a b a = mergeFrom (\<sigma> a) (\<sigma> b)"
  by (simp add: mergeFrom_at_value mergeFrom_self)

text \<open>
  C5. After \<^verbatim>\<open>A._mergeFrom( B )\<close> the tokens of \<open>A\<close> are those it had together with
  those of \<open>B\<close>: its own tokens stay, in their order, followed by the tokens of \<open>B\<close>
  that it did not have. \<open>B\<close> is unchanged, and so is every object other than \<open>A\<close>;
  this holds also when \<open>A\<close> and \<open>B\<close> are the same object.
\<close>

theorem mergeFrom_union:
  "set (keys (mergeFrom_at \<sigma> a b a)) = set (keys (\<sigma> a)) \<union> set (keys (\<sigma> b))
   \<and> keys (mergeFrom_at \<sigma> a b a) = keys (\<sigma> a) @ filter (\<lambda>token. \<not> has (\<sigma> a) token) (keys (\<sigma> b))
   \<and> mergeFrom_at \<sigma> a b b = \<sigma> b
   \<and> (\<forall>r. r \<noteq> a \<longrightarrow> mergeFrom_at \<sigma> a b r = \<sigma> r)
   \<and> mergeFrom_at \<sigma> a b a = mergeFrom (\<sigma> a) (\<sigma> b)"
proof (intro conjI)
  show "set (keys (mergeFrom_at \<sigma> a b a)) = set (keys (\<sigma> a)) \<union> set (keys (\<sigma> b))"
    by (simp add: mergeFrom_at_this keys_def mergeFrom_def mergeFrom_loop_set)
  show "keys (mergeFrom_at \<sigma> a b a) = keys (\<sigma> a) @ filter (\<lambda>token. \<not> has (\<sigma> a) token) (keys (\<sigma> b))"
    by (simp add: mergeFrom_at_this keys_def mergeFrom_def mergeFrom_loop_entries entries_distinct
        has_def set_has_def)
  show "mergeFrom_at \<sigma> a b b = \<sigma> b"
    by (simp add: mergeFrom_at_value)
  show "\<forall>r. r \<noteq> a \<longrightarrow> mergeFrom_at \<sigma> a b r = \<sigma> r"
    by (simp add: mergeFrom_at_value)
  show "mergeFrom_at \<sigma> a b a = mergeFrom (\<sigma> a) (\<sigma> b)"
    by (rule mergeFrom_at_this)
qed

theorem mergeFrom_union_witness:
  "keys (example_store 2) = [lit ''a'', lit ''b'']
   \<and> keys (example_store 3) = [lit ''b'', lit ''c'']
   \<and> keys (mergeFrom_at example_store 2 3 2) = [lit ''a'', lit ''b'', lit ''c'']
   \<and> keys (mergeFrom_at example_store 2 3 3) = [lit ''b'', lit ''c'']
   \<and> mergeFrom_at example_store 2 3 4 = example_store 4
   \<and> keys (mergeFrom_at example_store 2 2 2) = [lit ''a'', lit ''b'']"
proof -
  have sp: "split_ws (lit ''b c'') = [lit ''b'', lit ''c'']"
    by (simp add: split_ws.simps lit_def is_ws_def)
  have k: "keys (example_store 2) = [lit ''a'', lit ''b'']"
      "keys (example_store 3) = [lit ''b'', lit ''c'']"
    by (simp_all add: example_store_def split_a_b sp tl_defs set_rep) (simp_all add: lit_def)
  have h: "has (example_store 2) (lit ''b'')" "\<not> has (example_store 2) (lit ''c'')"
    using k(1) by (simp_all add: has_def set_has_def keys_def) (simp add: lit_def)
  note th = mergeFrom_union [where \<sigma> = example_store and a = 2 and b = 3]
  note th' = mergeFrom_union [where \<sigma> = example_store and a = 2 and b = 2]
  have "keys (mergeFrom_at example_store 2 3 2) = [lit ''a'', lit ''b'', lit ''c'']"
    using th [THEN conjunct2, THEN conjunct1] by (simp add: k h)
  moreover have "keys (mergeFrom_at example_store 2 3 3) = [lit ''b'', lit ''c'']"
    using th [THEN conjunct2, THEN conjunct2, THEN conjunct1] by (simp add: k)
  moreover have "mergeFrom_at example_store 2 3 4 = example_store 4"
    using th [THEN conjunct2, THEN conjunct2, THEN conjunct2, THEN conjunct1] by simp
  moreover have "keys (mergeFrom_at example_store 2 2 2) = [lit ''a'', lit ''b'']"
    using th' [THEN conjunct2, THEN conjunct2, THEN conjunct1] by (simp add: k)
  ultimately show ?thesis
    using k by simp
qed

end
